theory Spec2Isabelle
  imports Complex_Main "HOL-Library.Log_Nat"
begin

section \<open>The Wallhaven downloader: numbers, console and filesystem\<close>

text \<open>
  The downloader is asynchronous JavaScript: \<open>saveImageToFile\<close> issues one HTTPS request
  and registers callbacks, \<open>downloadPage\<close> starts the tasks of a batch and awaits
  \<open>Promise.all\<close>, \<open>main\<close> awaits one page after the other. The embedding is a
  reactive state machine. Each callback of the source is a function on the state, and
  the order in which the runtime delivers the callbacks (the network, the disk, the
  timers) is the input: a list of events. A theorem quantified over the event list
  holds for every schedule of the runtime.
\<close>

subsection \<open>JavaScript numbers\<close>

text \<open>
  A Number is NaN, an infinity or a finite double. Finite doubles are rationals;
  \<open>fl\<close> rounds the exact result of an operation to the nearest double (53 bits,
  ties to even), which is what \<open>/\<close> and \<open>*\<close> do. Signed zero, subnormals and
  overflow are not represented: the byte counts of a download stay far inside the
  normal range.
\<close>

datatype jsnum = NaN | PosInf | NegInf | Num rat

definition pow2 :: "int \<Rightarrow> rat" where
  "pow2 k = (if 0 \<le> k then 2 ^ nat k else 1 / 2 ^ nat (- k))"

definition ilog2 :: "rat \<Rightarrow> int" where
  "ilog2 q = (case quotient_of q of (a, b) \<Rightarrow>
      (let k = bitlen a - bitlen b in if pow2 k \<le> q then k else k - 1))"

definition round_even :: "rat \<Rightarrow> int" where
  "round_even m = (let f = \<lfloor>m\<rfloor>; d = m - of_int f in
      if d < 1 / 2 then f else if 1 / 2 < d then f + 1 else if even f then f else f + 1)"

definition fl :: "rat \<Rightarrow> rat" where
  "fl q = (if q = 0 then 0 else
      (let a = \<bar>q\<bar>; u = pow2 (ilog2 a - 52) in sgn q * of_int (round_even (a / u)) * u))"

fun js_div :: "jsnum \<Rightarrow> jsnum \<Rightarrow> jsnum" where
  "js_div NaN _ = NaN"
| "js_div _ NaN = NaN"
| "js_div (Num a) (Num b) =
     (if b = 0 then (if a = 0 then NaN else if 0 < a then PosInf else NegInf)
      else Num (fl (a / b)))"
| "js_div (Num a) _ = Num 0"
| "js_div PosInf (Num b) = (if 0 \<le> b then PosInf else NegInf)"
| "js_div NegInf (Num b) = (if 0 \<le> b then NegInf else PosInf)"
| "js_div _ _ = NaN"

fun js_mul :: "jsnum \<Rightarrow> jsnum \<Rightarrow> jsnum" where
  "js_mul NaN _ = NaN"
| "js_mul _ NaN = NaN"
| "js_mul (Num a) (Num b) = Num (fl (a * b))"
| "js_mul (Num a) PosInf = (if a = 0 then NaN else if 0 < a then PosInf else NegInf)"
| "js_mul (Num a) NegInf = (if a = 0 then NaN else if 0 < a then NegInf else PosInf)"
| "js_mul PosInf (Num b) = (if b = 0 then NaN else if 0 < b then PosInf else NegInf)"
| "js_mul NegInf (Num b) = (if b = 0 then NaN else if 0 < b then NegInf else PosInf)"
| "js_mul PosInf PosInf = PosInf"
| "js_mul NegInf NegInf = PosInf"
| "js_mul _ _ = NegInf"

text \<open>\<open>Math.round\<close>: the nearest integer, a tie going up.\<close>

fun Math_round :: "jsnum \<Rightarrow> jsnum" where
  "Math_round (Num x) = Num (of_int \<lfloor>x + 1 / 2\<rfloor>)"
| "Math_round x = x"

fun Math_min :: "jsnum \<Rightarrow> jsnum \<Rightarrow> jsnum" where
  "Math_min NaN _ = NaN"
| "Math_min _ NaN = NaN"
| "Math_min NegInf _ = NegInf"
| "Math_min _ NegInf = NegInf"
| "Math_min PosInf y = y"
| "Math_min x PosInf = x"
| "Math_min (Num a) (Num b) = Num (min a b)"

text \<open>
  \<open>parseInt(res.headers["content-length"], 10)\<close>: the header is given as the runtime's
  HTTP parser hands it over, \<open>None\<close> where it is absent (parseInt of \<open>undefined\<close> is
  NaN), \<open>Some n\<close> for the decimal number \<open>n\<close>.
\<close>

fun parseInt :: "nat option \<Rightarrow> jsnum" where
  "parseInt None = NaN"
| "parseInt (Some n) = Num (of_nat n)"

subsection \<open>Console, requests and the filesystem\<close>

datatype err =
    Failed_to_download_image int  \<comment> \<open>\<open>new Error(`Failed to download image: ${res.statusCode}`)\<close>\<close>
  | Download_timeout              \<comment> \<open>\<open>new Error("Download timeout")\<close>\<close>
  | Connection_timeout            \<comment> \<open>\<open>new Error("Connection timeout")\<close>\<close>
  | Runtime_error string          \<comment> \<open>the error object of a request or writer \<open>'error'\<close> event\<close>

text \<open>One constructor for each template string the program prints.\<close>

datatype line =
    Error_downloading string err      \<comment> \<open>\<open>Error downloading ${file_path}: ${err.message}\<close>\<close>
  | Downloading string jsnum int int  \<comment> \<open>\<open>Downloading ${name} - ${progress}% (${cur}/${total})\<close>\<close>
  | Downloading_done string int int   \<comment> \<open>\<open>Downloading ${name} - 100% (${cur}/${total})\n\<close>\<close>
  | Failed_to_download string int int \<comment> \<open>\<open>Failed to download ${name} - ${cur}/${total}\<close>\<close>
  | Already_exists string int int     \<comment> \<open>\<open>${name} already exists - ${cur}/${total}\<close>\<close>
  | Downloading_url int               \<comment> \<open>\<open>Downloading url: ${url}\<close>, the url of that page\<close>
  | Number_of_wallpapers int
  | Starting_from_page int
  | Total_download_time

datatype request = Get_page int | Get_image string

record world =
  files :: "string set"       \<comment> \<open>the paths that exist, what \<open>fs.existsSync\<close> answers\<close>
  console :: "line list"
  requests :: "request list"  \<comment> \<open>every \<open>https.get\<close> issued, in order\<close>

text \<open>\<open>file_path.split("/").pop()\<close>: what follows the last slash.\<close>

definition basename :: "string \<Rightarrow> string" where
  "basename p = rev (takeWhile (\<lambda>c. c \<noteq> CHR ''/'') (rev p))"

definition say :: "line \<Rightarrow> world \<Rightarrow> world" where
  "say l w = w\<lparr>console := console w @ [l]\<rparr>"

section \<open>One download: saveImageToFile\<close>

record call =
  image_url :: string
  file_path :: string
  current_image :: int
  total_images :: int

datatype request_state = No_request | In_flight | Destroyed
datatype writer_state = No_writer | Opening | Open | Closed
datatype timer_state = Unset | Armed | Cleared | Fired

text \<open>
  The variables one invocation of \<open>saveImageToFile\<close> closes over. \<open>img_response\<close> is the
  promise the function awaits: \<open>None\<close> while pending, \<open>Some b\<close> once \<open>resolve(b)\<close> ran.
  The source never calls \<open>reject\<close>.
\<close>

record task =
  args :: call
  request :: request_state
  responded :: bool
  res_destroyed :: bool
  writer :: writer_state
  writer_ended :: bool
  timeout :: timer_state
  downloaded :: nat
  total_bytes :: jsnum  \<comment> \<open>the source's \<open>total\<close>\<close>
  img_response :: "bool option"

definition new_task :: "call \<Rightarrow> task" where
  "new_task c = \<lparr>args = c, request = No_request, responded = False, res_destroyed = False,
     writer = No_writer, writer_ended = False, timeout = Unset, downloaded = 0,
     total_bytes = NaN,
     img_response = None\<rparr>"

definition name_of :: "task \<Rightarrow> string" where
  "name_of t = basename (file_path (args t))"

text \<open>
  \<open>resolve(b)\<close> settles the promise once; a later call does nothing. The code after the
  \<open>await\<close> (the "Failed to download" line) runs as the next microtask; every callback
  calls \<open>resolve\<close> as its last action, so the line is printed here.
\<close>

definition resolve :: "bool \<Rightarrow> task \<Rightarrow> world \<Rightarrow> task \<times> world" where
  "resolve b t w = (case img_response t of
       Some _ \<Rightarrow> (t, w)
     | None \<Rightarrow> (t\<lparr>img_response := Some b\<rparr>,
         if b then w
         else say (Failed_to_download (name_of t) (current_image (args t)) (total_images (args t))) w))"

definition onError :: "err \<Rightarrow> task \<Rightarrow> world \<Rightarrow> task \<times> world" where
  "onError e t w = resolve False t (say (Error_downloading (file_path (args t)) e) w)"

text \<open>
  The synchronous part of \<open>saveImageToFile\<close>, up to its \<open>await\<close>: the check of the
  destination, and the request. The url is one \<open>https.get\<close> accepts, as the search
  API returns it.
\<close>

definition saveImageToFile :: "call \<Rightarrow> world \<Rightarrow> task \<times> world" where
  "saveImageToFile c w =
     (if file_path c \<notin> files w
      then ((new_task c)\<lparr>request := In_flight\<rparr>,
            w\<lparr>requests := requests w @ [Get_image (image_url c)]\<rparr>)
      else (new_task c,
            say (Already_exists (basename (file_path c)) (current_image c) (total_images c)) w))"

text \<open>
  The promise \<open>saveImageToFile\<close> returns is settled when the file existed, or once
  \<open>img_response\<close> is resolved.
\<close>

definition settled :: "task \<Rightarrow> bool" where
  "settled t \<longleftrightarrow> request t = No_request \<or> img_response t \<noteq> None"

definition clearTimeout :: "task \<Rightarrow> task" where
  "clearTimeout t = (if timeout t = Armed then t\<lparr>timeout := Cleared\<rparr> else t)"

text \<open>
  \<open>fs.unlink(file_path, () => { })\<close>: the removal is modelled where it is issued; the
  code does not wait for it and ignores its outcome.
\<close>

definition unlink :: "string \<Rightarrow> world \<Rightarrow> world" where
  "unlink p w = w\<lparr>files := files w - {p}\<rparr>"

text \<open>The response callback, lines 228 to 286.\<close>

definition on_response :: "int \<Rightarrow> nat option \<Rightarrow> task \<Rightarrow> world \<Rightarrow> task \<times> world" where
  "on_response statusCode content_length t w =
     (if statusCode = 200
      then (t\<lparr>writer := Opening, downloaded := 0, total_bytes := parseInt content_length,
               timeout := Armed\<rparr>, w)
      else onError (Failed_to_download_image statusCode) t w)"

text \<open>The \<open>setTimeout\<close> callback, lines 239 to 244.\<close>

definition on_timeout :: "task \<Rightarrow> world \<Rightarrow> task \<times> world" where
  "on_timeout t w =
     onError Download_timeout (t\<lparr>res_destroyed := True, writer_ended := True\<rparr>)
       (unlink (file_path (args t)) w)"

text \<open>
  The \<open>res.on("data")\<close> callback, lines 246 to 259. \<open>process.stdout\<close> is a terminal, so
  \<open>clearLine\<close> and \<open>cursorTo\<close> exist; the line they overwrite is not modelled, each write
  is one entry of the console.
\<close>

definition on_data :: "nat \<Rightarrow> task \<Rightarrow> world \<Rightarrow> task \<times> world" where
  "on_data chunk_length t w =
     (let d = downloaded t + chunk_length;
          progress = Math_min (Math_round (js_mul (js_div (Num (of_nat d)) (total_bytes t)) (Num 100)))
                       (Num 100)
      in (t\<lparr>downloaded := d\<rparr>,
          say (Downloading (name_of t) progress (current_image (args t)) (total_images (args t))) w))"

text \<open>The \<open>writer.on("finish")\<close> callback, lines 263 to 273.\<close>

definition on_finish :: "task \<Rightarrow> world \<Rightarrow> task \<times> world" where
  "on_finish t w =
     resolve True (clearTimeout t)
       (say (Downloading_done (name_of t) (current_image (args t)) (total_images (args t))) w)"

text \<open>The \<open>writer.on("error")\<close> callback, lines 275 to 280.\<close>

definition on_writer_error :: "string \<Rightarrow> task \<Rightarrow> world \<Rightarrow> task \<times> world" where
  "on_writer_error m t w =
     onError (Runtime_error m) ((clearTimeout t)\<lparr>writer_ended := True\<rparr>)
       (unlink (file_path (args t)) w)"

text \<open>The \<open>request.on("timeout")\<close> callback, lines 290 to 293.\<close>

definition on_request_timeout :: "task \<Rightarrow> world \<Rightarrow> task \<times> world" where
  "on_request_timeout t w = onError Connection_timeout (t\<lparr>request := Destroyed\<rparr>) w"

text \<open>
  What the runtime can deliver to one download. \<open>Writer_open\<close> is the moment the write
  stream has opened its file (flags \<open>w\<close>: the path exists from then on);
  \<open>Request_error\<close> is the request's \<open>'error'\<close> event, which the runtime emits for a
  socket error before or during the response.
\<close>

datatype event =
    Response int "nat option"
  | Data nat
  | Writer_open
  | Writer_finish
  | Writer_error string
  | Timer_fired
  | Request_error string
  | Request_timeout

text \<open>
  A callback runs only if it is registered and its source can still fire: the response
  callback once per request, the data and writer callbacks after a 200 response, the
  timer while it is armed.
\<close>

fun task_step :: "event \<Rightarrow> task \<Rightarrow> world \<Rightarrow> task \<times> world" where
  "task_step (Response statusCode content_length) t w =
     (if request t = In_flight \<and> \<not> responded t
      then on_response statusCode content_length (t\<lparr>responded := True\<rparr>) w else (t, w))"
| "task_step (Data n) t w =
     (if writer t \<noteq> No_writer \<and> request t = In_flight \<and> \<not> res_destroyed t
      then on_data n t w else (t, w))"
| "task_step Writer_open t w =
     (if writer t = Opening
      then (t\<lparr>writer := Open\<rparr>, w\<lparr>files := insert (file_path (args t)) (files w)\<rparr>)
      else (t, w))"
| "task_step Writer_finish t w =
     (if writer t = Open then on_finish (t\<lparr>writer := Closed\<rparr>) w else (t, w))"
| "task_step (Writer_error m) t w =
     (if writer t = Opening \<or> writer t = Open
      then on_writer_error m (t\<lparr>writer := Closed\<rparr>) w else (t, w))"
| "task_step Timer_fired t w =
     (if timeout t = Armed then on_timeout (t\<lparr>timeout := Fired\<rparr>) w else (t, w))"
| "task_step (Request_error m) t w =
     (if request t \<noteq> No_request then onError (Runtime_error m) t w else (t, w))"
| "task_step Request_timeout t w =
     (if request t = In_flight then on_request_timeout t w else (t, w))"

fun task_run :: "event list \<Rightarrow> task \<Rightarrow> world \<Rightarrow> task \<times> world" where
  "task_run [] t w = (t, w)"
| "task_run (e # es) t w = (case task_step e t w of (t', w') \<Rightarrow> task_run es t' w')"

section \<open>One page: downloadPage, and the run: main\<close>

record item =
  path :: string

text \<open>
  The page response as the search API documents it: a JSON object whose \<open>data\<close> is
  absent or an array of items with a string \<open>path\<close>.
\<close>

record envelope =
  data :: "item list option"

text \<open>The parameters of \<open>downloadPage\<close>.\<close>

record dp_args =
  pageId :: int
  totalCount :: int
  folderName :: string
  offsetIndex :: int

text \<open>
  What one run is started with: the answers to the prompts (the two numbers as the
  integers \<open>parseInt\<close> read), the batch size (the source's \<open>CONCURRENCY_LIMIT\<close>) and the
  runtime's \<open>JSON.parse\<close>, \<open>None\<close> where it throws a SyntaxError.
\<close>

record params =
  FOLDER_NAME :: string
  start_page :: int
  pages_to_download :: int
  batchSize :: nat
  JSON_parse :: "string \<Rightarrow> envelope option"

definition CONCURRENCY_LIMIT :: nat where
  "CONCURRENCY_LIMIT = 8"

datatype failure =
    Rejected string         \<comment> \<open>the page request's \<open>'error'\<close>: \<open>reject(err)\<close>, thrown by the awaits up to \<open>main\<close>\<close>
  | Uncaught_SyntaxError    \<comment> \<open>\<open>JSON.parse\<close> throwing inside the \<open>'end'\<close> callback\<close>

text \<open>
  Where the run is suspended. \<open>Await_page\<close> holds the body received so far;
  \<open>Await_batch\<close> holds the loop variable \<open>i\<close> and the promises given to \<open>Promise.all\<close>,
  as positions in the list of tasks. \<open>Spinning\<close> is the loop with a batch size of 0,
  which awaits an empty \<open>Promise.all\<close> for ever.
\<close>

datatype control =
    Await_page dp_args string
  | Await_batch dp_args "item list" nat "nat list"
  | Completed
  | Failed failure
  | Spinning

record sys =
  world :: world
  tasks :: "task list"
  control :: control

text \<open>\<open>pageData.slice(i, j)\<close> for \<open>i \<le> j\<close>.\<close>

definition slice :: "nat \<Rightarrow> nat \<Rightarrow> 'a list \<Rightarrow> 'a list" where
  "slice i j xs = take (j - i) (drop i xs)"

text \<open>The arguments the callback of \<open>batch.map\<close> computes, lines 344 to 349.\<close>

definition task_call :: "dp_args \<Rightarrow> nat \<Rightarrow> nat \<Rightarrow> item \<Rightarrow> call" where
  "task_call a i index d =
     (let curImage = (pageId a - 1) * 24 + (int i + int index + 1) - offsetIndex a;
          imagePath = path d;
          filename = basename imagePath;
          localFilePath = folderName a @ ''/'' @ filename
      in \<lparr>image_url = imagePath, file_path = localFilePath, current_image = curImage,
          total_images = totalCount a\<rparr>)"

definition batch_calls :: "dp_args \<Rightarrow> nat \<Rightarrow> item list \<Rightarrow> call list" where
  "batch_calls a i batch = map (\<lambda>(index, d). task_call a i index d) (enumerate 0 batch)"

text \<open>\<open>batch.map\<close> calls \<open>saveImageToFile\<close> for one item after the other.\<close>

fun start_all :: "call list \<Rightarrow> task list \<times> world \<Rightarrow> task list \<times> world" where
  "start_all [] tw = tw"
| "start_all (c # cs) (ts, w) =
     (case saveImageToFile c w of (t, w') \<Rightarrow> start_all cs (ts @ [t], w'))"

definition all_settled :: "task list \<Rightarrow> nat list \<Rightarrow> bool" where
  "all_settled ts promises = list_all (\<lambda>k. settled (ts ! k)) promises"

text \<open>\<open>downloadPage\<close> up to its first \<open>await\<close>: the page request is issued.\<close>

definition downloadPage :: "dp_args \<Rightarrow> sys \<Rightarrow> sys" where
  "downloadPage a s =
     s\<lparr>world := (say (Downloading_url (pageId a)) (world s))
                  \<lparr>requests := requests (world s) @ [Get_page (pageId a)]\<rparr>,
       control := Await_page a []\<rparr>"

definition main_args :: "params \<Rightarrow> int \<Rightarrow> dp_args" where
  "main_args P page_index =
     \<lparr>pageId = page_index, totalCount = 24 * pages_to_download P,
      folderName = FOLDER_NAME P, offsetIndex = start_page P * 24\<rparr>"

text \<open>The \<open>for\<close> loop of \<open>main\<close>, lines 410 to 427, entered at \<open>page_index\<close>.\<close>

definition main_loop :: "params \<Rightarrow> int \<Rightarrow> sys \<Rightarrow> sys" where
  "main_loop P page_index s =
     (if page_index < start_page P + pages_to_download P
      then downloadPage (main_args P page_index) s
      else s\<lparr>world := say Total_download_time (world s), control := Completed\<rparr>)"

text \<open>
  The \<open>for\<close> loop of \<open>downloadPage\<close>, lines 342 to 352, entered at \<open>i\<close>. It starts the
  batch and suspends on \<open>Promise.all\<close>; when every promise of the batch is settled already
  (all files exist) it goes on with the next batch at once. After the last batch
  \<open>downloadPage\<close> returns into the loop of \<open>main\<close>.
\<close>

function downloadPage_loop :: "params \<Rightarrow> dp_args \<Rightarrow> item list \<Rightarrow> nat \<Rightarrow> sys \<Rightarrow> sys" where
  "downloadPage_loop P a pageData i s =
     (if i < length pageData then
        (if batchSize P = 0 then s\<lparr>control := Spinning\<rparr>
         else
           (let batch = slice i (i + batchSize P) pageData;
                n = length (tasks s);
                promises = [n ..< n + length batch]
            in case start_all (batch_calls a i batch) (tasks s, world s) of (ts, w) \<Rightarrow>
                 if all_settled ts promises
                 then downloadPage_loop P a pageData (i + batchSize P) (s\<lparr>world := w, tasks := ts\<rparr>)
                 else s\<lparr>world := w, tasks := ts, control := Await_batch a pageData i promises\<rparr>))
      else main_loop P (pageId a + 1) s)"
  by pat_completeness auto
termination
  by (relation "measure (\<lambda>(P, a, pageData, i, s). length pageData - i)") auto

text \<open>What the runtime can deliver to the run.\<close>

datatype env_event =
    Page_data string     \<comment> \<open>a chunk of the page response\<close>
  | Page_end             \<comment> \<open>the page response's \<open>'end'\<close>\<close>
  | Page_error string    \<comment> \<open>the page request's \<open>'error'\<close>\<close>
  | Task_event nat event \<comment> \<open>a callback of the download at that position\<close>

text \<open>The \<open>'end'\<close> callback of the page response and what follows the \<open>await\<close>, lines 329 to 341.\<close>

definition on_page_end :: "params \<Rightarrow> dp_args \<Rightarrow> string \<Rightarrow> sys \<Rightarrow> sys" where
  "on_page_end P a body s =
     (case JSON_parse P body of
        None \<Rightarrow> s\<lparr>control := Failed Uncaught_SyntaxError\<rparr>
      | Some response \<Rightarrow>
          (let pageData = (case data response of None \<Rightarrow> [] | Some xs \<Rightarrow> xs)
           in downloadPage_loop P a pageData 0 s))"

text \<open>After a callback of a download: \<open>Promise.all\<close> resolves once the whole batch has.\<close>

definition resume :: "params \<Rightarrow> sys \<Rightarrow> sys" where
  "resume P s =
     (case control s of
        Await_batch a pageData i promises \<Rightarrow>
          if all_settled (tasks s) promises
          then downloadPage_loop P a pageData (i + batchSize P) s else s
      | _ \<Rightarrow> s)"

definition deliver :: "nat \<Rightarrow> event \<Rightarrow> sys \<Rightarrow> sys" where
  "deliver k e s =
     (if k < length (tasks s)
      then (case task_step e (tasks s ! k) (world s) of
              (t, w) \<Rightarrow> s\<lparr>world := w, tasks := (tasks s)[k := t]\<rparr>)
      else s)"

definition alive :: "sys \<Rightarrow> bool" where
  "alive s = (case control s of Failed _ \<Rightarrow> False | Spinning \<Rightarrow> False | _ \<Rightarrow> True)"

text \<open>
  One turn of the event loop. A failed run is a terminated process (an uncaught
  exception, or the rejection of \<open>main()\<close>, which nothing handles): nothing is
  delivered any more. Timers of downloads outlive \<open>main\<close>, so a completed run still
  takes their callbacks. The length of the timeouts is real time and not modelled:
  a timer is an event that can come while it is armed.
\<close>

fun step :: "params \<Rightarrow> sys \<Rightarrow> env_event \<Rightarrow> sys" where
  "step P s (Page_data chunk) =
     (case control s of Await_page a body \<Rightarrow> s\<lparr>control := Await_page a (body @ chunk)\<rparr> | _ \<Rightarrow> s)"
| "step P s Page_end =
     (case control s of Await_page a body \<Rightarrow> on_page_end P a body s | _ \<Rightarrow> s)"
| "step P s (Page_error m) =
     (case control s of Await_page a body \<Rightarrow> s\<lparr>control := Failed (Rejected m)\<rparr> | _ \<Rightarrow> s)"
| "step P s (Task_event k e) = (if alive s then resume P (deliver k e s) else s)"

text \<open>
  \<open>main\<close> from the directory check to the first \<open>await\<close> of \<open>downloadPage\<close>, on a
  filesystem holding the paths \<open>fs\<close>.
\<close>

definition main :: "params \<Rightarrow> string set \<Rightarrow> sys" where
  "main P fs =
     main_loop P (start_page P)
       \<lparr>world = \<lparr>files = insert (FOLDER_NAME P) fs,
                 console = [Number_of_wallpapers (24 * pages_to_download P),
                            Starting_from_page (start_page P)],
                 requests = []\<rparr>,
        tasks = [], control = Completed\<rparr>"

definition run :: "params \<Rightarrow> string set \<Rightarrow> env_event list \<Rightarrow> sys" where
  "run P fs evs = foldl (step P) (main P fs) evs"

section \<open>Notions used to state the properties\<close>



text \<open>The image requests in the log of \<open>https.get\<close> calls, and the tasks that issued one.\<close>

fun image_urls :: "request list \<Rightarrow> string list" where
  "image_urls [] = []"
| "image_urls (Get_image u # rs) = u # image_urls rs"
| "image_urls (Get_page p # rs) = image_urls rs"

definition requested :: "task \<Rightarrow> bool" where
  "requested t \<longleftrightarrow> request t \<noteq> No_request"

definition accounted :: "sys \<Rightarrow> bool" where
  "accounted s \<longleftrightarrow>
     image_urls (requests (world s)) = map (\<lambda>t. image_url (args t)) (filter requested (tasks s))"

text \<open>
  The task \<open>saveImageToFile\<close> returns depends on the filesystem only; a batch started
  on the state \<open>s\<close> appends these tasks.
\<close>

definition start_task :: "string set \<Rightarrow> call \<Rightarrow> task" where
  "start_task fs c = (if file_path c \<notin> fs then (new_task c)\<lparr>request := In_flight\<rparr> else new_task c)"

definition batch_tasks :: "params \<Rightarrow> dp_args \<Rightarrow> item list \<Rightarrow> nat \<Rightarrow> sys \<Rightarrow> task list" where
  "batch_tasks P a pageData i s =
     map (start_task (files (world s))) (batch_calls a i (slice i (i + batchSize P) pageData))"

definition batch_started :: "params \<Rightarrow> dp_args \<Rightarrow> item list \<Rightarrow> nat \<Rightarrow> sys \<Rightarrow> sys" where
  "batch_started P a pageData i s =
     s\<lparr>world := snd (start_all (batch_calls a i (slice i (i + batchSize P) pageData)) (tasks s, world s)),
       tasks := tasks s @ batch_tasks P a pageData i s\<rparr>"

text \<open>
  \<open>page_prefix a pageData j ts\<close>: the last \<open>j\<close> tasks of \<open>ts\<close> are the calls for the
  first \<open>j\<close> items of the page, in the order of the page.
\<close>

definition page_prefix :: "dp_args \<Rightarrow> item list \<Rightarrow> nat \<Rightarrow> task list \<Rightarrow> bool" where
  "page_prefix a pageData j ts \<longleftrightarrow>
     j \<le> length ts \<and> map args (drop (length ts - j) ts) = batch_calls a 0 (take j pageData)"

text \<open>The arguments \<open>main\<close> calls \<open>downloadPage\<close> with, for a page of the requested range.\<close>

definition page_ok :: "params \<Rightarrow> dp_args \<Rightarrow> bool" where
  "page_ok P a \<longleftrightarrow> a = main_args P (pageId a) \<and> start_page P \<le> pageId a
     \<and> pageId a < start_page P + pages_to_download P"

text \<open>The invariant of the run.\<close>

definition run_inv :: "params \<Rightarrow> sys \<Rightarrow> bool" where
  "run_inv P s = (case control s of
       Await_batch a pageData i promises \<Rightarrow>
         page_ok P a \<and> 0 < batchSize P \<and> batchSize P dvd i \<and> i < length pageData \<and>
         (let m = length (slice i (i + batchSize P) pageData); n = length (tasks s) in
            page_prefix a pageData (i + m) (tasks s) \<and> promises = [n - m ..< n] \<and>
            (\<forall>k < n - m. settled (tasks s ! k)))
     | Await_page a body \<Rightarrow> page_ok P a \<and> (\<forall>t \<in> set (tasks s). settled t)
     | Completed \<Rightarrow> (\<forall>t \<in> set (tasks s). settled t)
     | _ \<Rightarrow> True)"


text \<open>\<open>kept p s\<close>: the path \<open>p\<close> exists and no task with that destination has done anything.\<close>

definition kept :: "string \<Rightarrow> sys \<Rightarrow> bool" where
  "kept p s \<longleftrightarrow> p \<in> files (world s)
     \<and> (\<forall>t \<in> set (tasks s). file_path (args t) = p \<longrightarrow> t = new_task (args t))"

text \<open>A download that can no longer create its file: no writer, no timer, and the response callback spent.\<close>

definition no_file_ever :: "task \<Rightarrow> bool" where
  "no_file_ever t \<longleftrightarrow> writer t = No_writer \<and> timeout t = Unset \<and> (responded t \<or> request t \<noteq> In_flight)"

definition unanswered :: "task \<Rightarrow> bool" where
  "unanswered t \<longleftrightarrow> writer t = No_writer \<and> timeout t = Unset \<and> \<not> responded t
     \<and> request t \<noteq> No_request \<and> img_response t \<noteq> Some True"

section \<open>A concrete run\<close>

text \<open>
  A run from page 3 over two pages with the source's batch size. The page holds ten
  items; six of the files exist already. \<open>ex_parse\<close> stands for \<open>JSON.parse\<close> on the
  three bodies used here.
\<close>

definition ex_items :: "item list" where
  "ex_items = map (\<lambda>c. \<lparr>path = ''https://w.wallhaven.cc/full/ab/wallhaven-ab000'' @ [c] @ ''.jpg''\<rparr>)
     ''0123456789''"

definition ex_parse :: "string \<Rightarrow> envelope option" where
  "ex_parse body =
     (if body = ''ten items'' then Some \<lparr>data = Some ex_items\<rparr>
      else if body = ''no data'' then Some \<lparr>data = None\<rparr>
      else None)"

definition ex_params :: params where
  "ex_params = \<lparr>FOLDER_NAME = ''/home/u/Wallpapers'', start_page = 3, pages_to_download = 2,
     batchSize = CONCURRENCY_LIMIT, JSON_parse = ex_parse\<rparr>"

definition ex_files :: "string set" where
  "ex_files = set (map (\<lambda>c. ''/home/u/Wallpapers/wallhaven-ab000'' @ [c] @ ''.jpg'') ''012345'')"

definition ex_page :: "env_event list" where
  "ex_page = [Page_data ''ten '', Page_data ''items'', Page_end]"

definition ex_events :: "env_event list" where
  "ex_events = ex_page @
     [Task_event 6 (Response 200 (Some 200)), Task_event 7 (Response 404 None),
      Task_event 6 Writer_open, Task_event 6 (Data 29), Task_event 6 (Data 171),
      Task_event 6 Writer_finish]"

definition ex_call :: call where
  "ex_call = \<lparr>image_url = ''https://w.wallhaven.cc/full/ab/wallhaven-ab12cd.jpg'',
     file_path = ''/home/u/Wallpapers/wallhaven-ab12cd.jpg'', current_image = 1, total_images = 24\<rparr>"

definition ex_world :: world where
  "ex_world = \<lparr>files = {''/home/u/Wallpapers''}, console = [], requests = []\<rparr>"

definition ex_world_after :: world where
  "ex_world_after = \<lparr>files = {''/home/u/Wallpapers'', ''/home/u/Wallpapers/wallhaven-ab12cd.jpg''},
     console = [], requests = []\<rparr>"


section \<open>Properties of the batch slicing and the index\<close>

declare downloadPage_loop.simps [simp del]

lemmas handler_defs = on_response_def on_timeout_def on_data_def on_finish_def
  on_writer_error_def on_request_timeout_def onError_def resolve_def say_def unlink_def
  clearTimeout_def name_of_def

lemma length_slice: "length (slice i j xs) = min (j - i) (length xs - i)"
  by (simp add: slice_def)


lemma take_slice: "take (i + L) xs = take i xs @ slice i (i + L) xs"
  by (simp add: slice_def take_add)

lemma length_batch_calls [simp]: "length (batch_calls a i batch) = length batch"
  by (simp add: batch_calls_def)

lemma nth_batch_calls:
  "index < length batch \<Longrightarrow> batch_calls a i batch ! index = task_call a i index (batch ! index)"
  by (simp add: batch_calls_def nth_enumerate_eq)



lemma task_call_shift: "task_call a i index d = task_call a 0 (i + index) d"
  by (simp add: task_call_def)



section \<open>Properties of one download\<close>

lemma args_task_step: "task_step e t w = (t', w') \<Longrightarrow> args t' = args t"
  by (cases e) (auto simp: handler_defs Let_def split: if_splits option.splits)

lemma settled_task_step: "task_step e t w = (t', w') \<Longrightarrow> settled t \<Longrightarrow> settled t'"
  by (cases e) (auto simp: handler_defs settled_def Let_def split: if_splits option.splits)

lemma idle_task_step:
  "request t = No_request \<Longrightarrow> writer t = No_writer \<Longrightarrow> timeout t = Unset
   \<Longrightarrow> task_step e t w = (t, w)"
  by (cases e) auto

lemma new_task_idle: "task_step e (new_task c) w = (new_task c, w)"
  by (rule idle_task_step) (simp_all add: new_task_def)

lemma new_task_idle_run: "task_run es (new_task c) w = (new_task c, w)"
  by (induction es) (simp_all add: new_task_idle)

lemma task_run_append:
  "task_run (xs @ ys) t w = (case task_run xs t w of (t1, w1) \<Rightarrow> task_run ys t1 w1)"
  by (induction xs arbitrary: t w) (simp_all split: prod.splits)

lemma console_grows_step: "task_step e t w = (t', w') \<Longrightarrow> \<exists>ls. console w' = console w @ ls"
  by (cases e) (auto simp: handler_defs Let_def split: if_splits option.splits)

lemma console_grows_run: "task_run es t w = (t', w') \<Longrightarrow> \<exists>ls. console w' = console w @ ls"
proof (induction es arbitrary: t w)
  case Nil
  then show ?case by simp
next
  case (Cons e es)
  obtain t1 w1 where s: "task_step e t w = (t1, w1)" by (cases "task_step e t w")
  from console_grows_step [OF s] obtain l1 where "console w1 = console w @ l1" ..
  moreover from Cons.prems s have "task_run es t1 w1 = (t', w')" by simp
  from Cons.IH [OF this] obtain l2 where "console w' = console w1 @ l2" ..
  ultimately show ?case by simp
qed

lemma resolved_step:
  "task_step e t w = (t', w') \<Longrightarrow> img_response t = Some b \<Longrightarrow> img_response t' = Some b"
  by (cases e) (auto simp: handler_defs Let_def split: if_splits option.splits)

lemma resolved_run:
  "task_run es t w = (t', w') \<Longrightarrow> img_response t = Some b \<Longrightarrow> img_response t' = Some b"
proof (induction es arbitrary: t w)
  case Nil
  then show ?case by simp
next
  case (Cons e es)
  obtain t1 w1 where s: "task_step e t w = (t1, w1)" by (cases "task_step e t w")
  from resolved_step [OF s Cons.prems(2)] have "img_response t1 = Some b" .
  moreover from Cons.prems s have "task_run es t1 w1 = (t', w')" by simp
  ultimately show ?case using Cons.IH by blast
qed

lemma no_file_ever_step:
  "no_file_ever t \<Longrightarrow> task_step e t w = (t', w') \<Longrightarrow> no_file_ever t' \<and> files w' = files w"
  by (cases e) (auto simp: no_file_ever_def handler_defs split: if_splits option.splits)

lemma no_file_ever_run:
  "no_file_ever t \<Longrightarrow> task_run es t w = (t', w') \<Longrightarrow> no_file_ever t' \<and> files w' = files w"
proof (induction es arbitrary: t w)
  case Nil
  then show ?case by simp
next
  case (Cons e es)
  obtain t1 w1 where s: "task_step e t w = (t1, w1)" by (cases "task_step e t w")
  with Cons.prems(1) have "no_file_ever t1" "files w1 = files w"
    using no_file_ever_step by blast+
  moreover from Cons.prems(2) s have "task_run es t1 w1 = (t', w')" by simp
  ultimately show ?case using Cons.IH by fastforce
qed

lemma unanswered_step:
  assumes "unanswered t" "\<forall>sc cl. e \<noteq> Response sc cl" "task_step e t w = (t', w')"
  shows "unanswered t' \<and> files w' = files w \<and> (e \<noteq> Request_timeout \<longrightarrow> request t' = request t)"
  using assms
  by (cases e) (auto simp: unanswered_def handler_defs split: if_splits option.splits)

lemma unanswered_run:
  assumes "unanswered t" "\<forall>e \<in> set pre. \<forall>sc cl. e \<noteq> Response sc cl"
    and "task_run pre t w = (t', w')"
  shows "unanswered t' \<and> files w' = files w
       \<and> (Request_timeout \<notin> set pre \<longrightarrow> request t' = request t)"
  using assms
proof (induction pre arbitrary: t w)
  case Nil
  then show ?case by simp
next
  case (Cons e es)
  obtain t1 w1 where s: "task_step e t w = (t1, w1)" by (cases "task_step e t w")
  from Cons.prems(2) have e: "\<forall>sc cl. e \<noteq> Response sc cl" by simp
  from unanswered_step [OF Cons.prems(1) e s]
  have 1: "unanswered t1" "files w1 = files w" "e \<noteq> Request_timeout \<longrightarrow> request t1 = request t"
    by simp_all
  from Cons.prems(3) s have r: "task_run es t1 w1 = (t', w')" by simp
  from Cons.prems(2) have "\<forall>e \<in> set es. \<forall>sc cl. e \<noteq> Response sc cl" by simp
  from Cons.IH [OF 1(1) this r] 1(2,3) show ?case by auto
qed

text \<open>
  Claim C6. A download is started for a destination that does not exist; callbacks
  other than the response may run first; then the response arrives with a status
  other than 200; any callbacks follow. The write handle is never opened and the
  filesystem is as before the download; and when the request is still in flight at
  the response (no socket timeout has destroyed it), the task has failed with the
  error that carries the status code.
\<close>

theorem non_200_fails_without_file:
  assumes "statusCode \<noteq> 200" and "file_path c \<notin> files w"
    and "saveImageToFile c w = (t0, w0)"
    and "\<forall>e \<in> set pre. \<forall>sc cl. e \<noteq> Response sc cl"
    and "task_run (pre @ Response statusCode content_length # es) t0 w0 = (t, w')"
  shows "writer t = No_writer \<and> files w' = files w
       \<and> (Request_timeout \<notin> set pre \<longrightarrow>
            img_response t = Some False
          \<and> Error_downloading (file_path c) (Failed_to_download_image statusCode) \<in> set (console w'))"
proof -
  from assms(2,3) have t0: "t0 = (new_task c)\<lparr>request := In_flight\<rparr>"
    and w0: "files w0 = files w"
    by (auto simp: saveImageToFile_def)
  then have u0: "unanswered t0" by (simp add: unanswered_def new_task_def)
  obtain t1 w1 where p: "task_run pre t0 w0 = (t1, w1)" by (cases "task_run pre t0 w0")
  from unanswered_run [OF u0 assms(4) p]
  have u1: "unanswered t1" and f1: "files w1 = files w0"
    and q1: "Request_timeout \<notin> set pre \<longrightarrow> request t1 = request t0" by simp_all
  obtain t2 w2 where s: "task_step (Response statusCode content_length) t1 w1 = (t2, w2)"
    by (cases "task_step (Response statusCode content_length) t1 w1")
  from assms(5) p s have r: "task_run es t2 w2 = (t, w')"
    by (simp add: task_run_append)
  from u1 s assms(1) have n2: "no_file_ever t2" and f2: "files w2 = files w1"
    by (auto simp: unanswered_def no_file_ever_def handler_defs split: if_splits option.splits)
  from no_file_ever_run [OF n2 r] f2 f1 w0
  have a: "writer t = No_writer" "files w' = files w"
    by (simp_all add: no_file_ever_def)
  have b: "img_response t = Some False
     \<and> Error_downloading (file_path c) (Failed_to_download_image statusCode) \<in> set (console w')"
    if "Request_timeout \<notin> set pre"
  proof -
    from that q1 t0 have "request t1 = In_flight" by simp
    moreover from p t0 have "args t1 = c"
    proof -
      have "args t' = args t" if "task_run xs t w = (t', w')" for xs t w t' w'
        using that
        by (induction xs arbitrary: t w) (auto split: prod.splits dest: args_task_step)
      from this [OF p] t0 show ?thesis by (simp add: new_task_def)
    qed
    ultimately have "img_response t2 = Some False"
      and "Error_downloading (file_path c) (Failed_to_download_image statusCode) \<in> set (console w2)"
      using u1 s assms(1)
      by (auto simp: unanswered_def handler_defs split: if_splits option.splits)
    with resolved_run [OF r] console_grows_run [OF r] show ?thesis by auto
  qed
  from a b show ?thesis by blast
qed

theorem non_200_fails_without_file_witness:
  "(404::int) \<noteq> 200 \<and> file_path ex_call \<notin> files ex_world
   \<and> (case task_run ([Request_error ''read ECONNRESET''] @ Response 404 None # [Timer_fired, Writer_open])
             (fst (saveImageToFile ex_call ex_world)) (snd (saveImageToFile ex_call ex_world)) of
        (t, w') \<Rightarrow> writer t = No_writer \<and> files w' = files ex_world \<and> img_response t = Some False
          \<and> Error_downloading (file_path ex_call) (Failed_to_download_image 404) \<in> set (console w'))"
proof -
  have h1: "(404::int) \<noteq> 200" by simp
  have h2: "file_path ex_call \<notin> files ex_world" by (simp add: ex_call_def ex_world_def)
  have h3: "\<forall>e \<in> set [Request_error ''read ECONNRESET'']. \<forall>sc cl. e \<noteq> Response sc cl" by simp
  have h4: "Request_timeout \<notin> set [Request_error ''read ECONNRESET'']" by simp
  obtain t w' where r: "task_run ([Request_error ''read ECONNRESET''] @ Response 404 None # [Timer_fired, Writer_open])
             (fst (saveImageToFile ex_call ex_world)) (snd (saveImageToFile ex_call ex_world)) = (t, w')"
    by (cases "task_run ([Request_error ''read ECONNRESET''] @ Response 404 None # [Timer_fired, Writer_open])
             (fst (saveImageToFile ex_call ex_world)) (snd (saveImageToFile ex_call ex_world))")
  from non_200_fails_without_file [OF h1 h2 prod.collapse [symmetric] h3 r] h4
  have "writer t = No_writer \<and> files w' = files ex_world \<and> img_response t = Some False
          \<and> Error_downloading (file_path ex_call) (Failed_to_download_image 404) \<in> set (console w')"
    by blast
  with h1 h2 r show ?thesis by simp
qed

text \<open>
  Claim C4, at a concrete download. The response has status 200, the file is opened,
  100 of 1000 bytes arrive, then the connection is reset: the runtime emits the
  request's \<open>'error'\<close>, whose callback is \<open>onError(resolve)\<close> alone. The task settles as
  failed while the partial file exists and \<open>writer.end()\<close> has not been called; the
  timer is still armed.
\<close>

theorem partial_file_left_on_request_error:
  "(case saveImageToFile ex_call ex_world of (t0, w0) \<Rightarrow>
     (case task_run [Response 200 (Some 1000), Writer_open, Data 100,
                     Request_error ''read ECONNRESET''] t0 w0 of
        (t, w) \<Rightarrow> settled t \<and> img_response t = Some False \<and> file_path ex_call \<in> files w
                 \<and> writer t = Open \<and> \<not> writer_ended t \<and> timeout t = Armed))"
  by (auto simp add: saveImageToFile_def ex_call_def ex_world_def new_task_def handler_defs
      settled_def Let_def)

text \<open>
  The two callbacks that do clean up: the download timer and the writer's \<open>'error'\<close>
  end the writer and issue the removal of the file before they resolve the promise.
\<close>

lemma timer_and_write_error_clean_up:
  assumes "e = Timer_fired \<and> timeout t = Armed \<or> e = Writer_error m \<and> writer t = Open"
    and "img_response t = None" and "task_step e t w = (t', w')"
  shows "writer_ended t' \<and> file_path (args t) \<notin> files w' \<and> img_response t' = Some False"
  using assms by (auto simp: handler_defs split: if_splits)

text \<open>
  When the connection error settled the task, the file goes only when the timer
  fires, up to the whole timeout later.
\<close>

lemma partial_file_removed_by_late_timer:
  "(case saveImageToFile ex_call ex_world of (t0, w0) \<Rightarrow>
     (case task_run [Response 200 (Some 1000), Writer_open, Data 100,
                     Request_error ''read ECONNRESET'', Timer_fired] t0 w0 of
        (t, w) \<Rightarrow> file_path ex_call \<notin> files w \<and> writer_ended t))"
  by (auto simp add: saveImageToFile_def ex_call_def ex_world_def new_task_def handler_defs
      settled_def Let_def)





section \<open>Properties of the page loop\<close>

lemma saveImageToFile_task: "fst (saveImageToFile c w) = start_task (files w) c"
  by (simp add: saveImageToFile_def start_task_def)

lemma saveImageToFile_files: "files (snd (saveImageToFile c w)) = files w"
  by (simp add: saveImageToFile_def say_def)


lemma saveImageToFile_requests:
  "requests (snd (saveImageToFile c w))
     = requests w @ map (\<lambda>c. Get_image (image_url c)) (filter (\<lambda>c. file_path c \<notin> files w) [c])"
  by (simp add: saveImageToFile_def say_def)

lemma start_all_tasks:
  "fst (start_all cs (ts, w)) = ts @ map (start_task (files w)) cs"
proof (induction cs arbitrary: ts w)
  case Nil
  then show ?case by simp
next
  case (Cons c cs)
  obtain t w1 where s: "saveImageToFile c w = (t, w1)" by (cases "saveImageToFile c w")
  then have "t = start_task (files w) c" "files w1 = files w"
    using saveImageToFile_task [of c w] saveImageToFile_files [of c w] by simp_all
  with s show ?case by (simp add: Cons.IH)
qed

lemma start_all_files: "files (snd (start_all cs (ts, w))) = files w"
proof (induction cs arbitrary: ts w)
  case Nil
  then show ?case by simp
next
  case (Cons c cs)
  obtain t w1 where s: "saveImageToFile c w = (t, w1)" by (cases "saveImageToFile c w")
  then have "files w1 = files w" using saveImageToFile_files [of c w] by simp
  with s show ?case by (simp add: Cons.IH)
qed


lemma start_all_requests:
  "requests (snd (start_all cs (ts, w)))
     = requests w @ map (\<lambda>c. Get_image (image_url c)) (filter (\<lambda>c. file_path c \<notin> files w) cs)"
proof (induction cs arbitrary: ts w)
  case Nil
  then show ?case by simp
next
  case (Cons c cs)
  obtain t w1 where s: "saveImageToFile c w = (t, w1)" by (cases "saveImageToFile c w")
  then have "files w1 = files w"
    and "requests w1 = requests w
          @ map (\<lambda>c. Get_image (image_url c)) (filter (\<lambda>c. file_path c \<notin> files w) [c])"
    using saveImageToFile_files [of c w] saveImageToFile_requests [of c w] by simp_all
  with s show ?case by (simp add: Cons.IH)
qed

lemma args_start_task [simp]: "args (start_task fs c) = c"
  by (simp add: start_task_def new_task_def)

lemma downloadPage_loop_done:
  "\<not> i < length pageData \<Longrightarrow> downloadPage_loop P a pageData i s = main_loop P (pageId a + 1) s"
  by (subst downloadPage_loop.simps) simp

lemma downloadPage_loop_spin:
  "i < length pageData \<Longrightarrow> batchSize P = 0
   \<Longrightarrow> downloadPage_loop P a pageData i s = s\<lparr>control := Spinning\<rparr>"
  by (subst downloadPage_loop.simps) simp

lemma nths_appended: "map ((!) (ts @ new)) [length ts ..< length ts + length new] = new"
  by (rule nth_equalityI) (simp_all add: nth_append)

lemma all_settled_appended:
  "all_settled (ts @ new) [length ts ..< length ts + length new] = list_all settled new"
proof -
  have "list_all (\<lambda>k. settled ((ts @ new) ! k)) [length ts ..< length ts + length new]
      = list_all settled (map ((!) (ts @ new)) [length ts ..< length ts + length new])"
    by (simp add: list_all_iff)
  then show ?thesis by (simp only: all_settled_def nths_appended)
qed

text \<open>One turn of the loop: the whole batch is started in one go, then the loop waits or goes on.\<close>

lemma downloadPage_loop_batch:
  assumes "i < length pageData" "0 < batchSize P"
  shows "downloadPage_loop P a pageData i s =
     (if list_all settled (batch_tasks P a pageData i s)
      then downloadPage_loop P a pageData (i + batchSize P) (batch_started P a pageData i s)
      else (batch_started P a pageData i s)\<lparr>control :=
             Await_batch a pageData i
               [length (tasks s) ..< length (tasks s) + length (slice i (i + batchSize P) pageData)]\<rparr>)"
proof -
  let ?cs = "batch_calls a i (slice i (i + batchSize P) pageData)"
  let ?n = "length (tasks s)"
  obtain ts w where st: "start_all ?cs (tasks s, world s) = (ts, w)"
    by (cases "start_all ?cs (tasks s, world s)")
  with start_all_tasks [of ?cs "tasks s" "world s"]
  have ts: "ts = tasks s @ batch_tasks P a pageData i s"
    by (simp add: batch_tasks_def)
  have len: "length (batch_tasks P a pageData i s) = length (slice i (i + batchSize P) pageData)"
    by (simp add: batch_tasks_def)
  have "all_settled ts [?n ..< ?n + length (slice i (i + batchSize P) pageData)]
          = list_all settled (batch_tasks P a pageData i s)"
    unfolding ts len [symmetric] by (rule all_settled_appended)
  with assms st ts show ?thesis
    by (subst downloadPage_loop.simps) (simp add: Let_def batch_started_def)
qed

lemma tasks_batch_started:
  "tasks (batch_started P a pageData i s) = tasks s @ batch_tasks P a pageData i s"
  by (simp add: batch_started_def)

lemma args_batch_tasks:
  "map args (batch_tasks P a pageData i s) = batch_calls a i (slice i (i + batchSize P) pageData)"
  by (simp add: batch_tasks_def comp_def)

lemma length_batch_tasks:
  "length (batch_tasks P a pageData i s) = length (slice i (i + batchSize P) pageData)"
  by (simp add: batch_tasks_def)

text \<open>A property kept by each action of the loop is kept by the loop.\<close>

lemma loop_rule:
  assumes "I s"
    and batch: "\<And>i s. I s \<Longrightarrow> i < length pageData \<Longrightarrow> 0 < batchSize P
                  \<Longrightarrow> I (batch_started P a pageData i s)"
    and spin: "\<And>s. I s \<Longrightarrow> I (s\<lparr>control := Spinning\<rparr>)"
    and wait: "\<And>s i ps. I s \<Longrightarrow> I (s\<lparr>control := Await_batch a pageData i ps\<rparr>)"
    and next_page: "\<And>s. I s \<Longrightarrow> I (main_loop P (pageId a + 1) s)"
  shows "I (downloadPage_loop P a pageData i s)"
  using assms(1)
proof (induction "length pageData - i" arbitrary: i s rule: less_induct)
  case less
  show ?case
  proof (cases "i < length pageData")
    case False
    with less.prems show ?thesis by (simp add: downloadPage_loop_done next_page)
  next
    case True
    show ?thesis
    proof (cases "batchSize P = 0")
      case True
      with \<open>i < length pageData\<close> less.prems show ?thesis
        by (simp add: downloadPage_loop_spin spin)
    next
      case False
      then have L: "0 < batchSize P" by simp
      from batch [OF less.prems True L] have b: "I (batch_started P a pageData i s)" .
      have "length pageData - (i + batchSize P) < length pageData - i"
        using True L by simp
      from less.hyps [OF this b] wait [OF b] True L show ?thesis
        by (simp add: downloadPage_loop_batch)
    qed
  qed
qed






subsection \<open>The calls of a page, batch after batch\<close>

lemma batch_calls_append:
  "batch_calls a 0 (xs @ ys) = batch_calls a 0 xs @ batch_calls a (length xs) ys"
proof (rule nth_equalityI)
  show "length (batch_calls a 0 (xs @ ys))
      = length (batch_calls a 0 xs @ batch_calls a (length xs) ys)"
    by simp
next
  fix k assume "k < length (batch_calls a 0 (xs @ ys))"
  then have k: "k < length xs + length ys" by simp
  show "batch_calls a 0 (xs @ ys) ! k = (batch_calls a 0 xs @ batch_calls a (length xs) ys) ! k"
  proof (cases "k < length xs")
    case True
    then show ?thesis by (simp add: nth_append nth_batch_calls)
  next
    case False
    with k have "k - length xs < length ys" by simp
    with False k show ?thesis
      by (simp add: nth_append nth_batch_calls task_call_shift [of a "length xs"])
  qed
qed

lemma batch_calls_split:
  "i \<le> length pageData \<Longrightarrow>
   batch_calls a 0 (take (i + L) pageData)
     = batch_calls a 0 (take i pageData) @ batch_calls a i (slice i (i + L) pageData)"
  by (simp add: take_slice batch_calls_append)

lemma page_prefix_0: "page_prefix a pageData 0 ts"
  by (simp add: page_prefix_def batch_calls_def)

lemma page_prefix_cong:
  "length ts' = length ts \<Longrightarrow> map args ts' = map args ts \<Longrightarrow>
   page_prefix a pageData j ts' = page_prefix a pageData j ts"
  by (simp add: page_prefix_def drop_map [symmetric])

lemma page_prefix_extend:
  assumes "page_prefix a pageData i ts" "i \<le> length pageData"
    and "map args new = batch_calls a i (slice i (i + L) pageData)"
  shows "page_prefix a pageData (i + length (slice i (i + L) pageData)) (ts @ new)"
proof -
  let ?m = "length (slice i (i + L) pageData)"
  from assms(3) have len: "length new = ?m"
    by (metis length_batch_calls length_map)
  from assms(1) have i: "i \<le> length ts"
    and pre: "map args (drop (length ts - i) ts) = batch_calls a 0 (take i pageData)"
    by (simp_all add: page_prefix_def)
  have "take (i + ?m) pageData = take (i + L) pageData"
    by (simp add: length_slice min_def)
  then have "batch_calls a 0 (take (i + ?m) pageData)
      = batch_calls a 0 (take i pageData) @ batch_calls a i (slice i (i + L) pageData)"
    using batch_calls_split [OF assms(2)] by simp
  moreover from i len
  have "drop (length (ts @ new) - (i + ?m)) (ts @ new) = drop (length ts - i) ts @ new"
    by simp
  ultimately show ?thesis
    using i len pre assms(3) by (simp add: page_prefix_def)
qed

lemma drop_page_prefix:
  assumes "page_prefix a pageData (i + m) ts" "i \<le> length pageData"
    and "m = length (slice i (i + L) pageData)"
  shows "map args (drop (length ts - m) ts) = batch_calls a i (slice i (i + L) pageData)"
proof -
  from assms(1) have le: "i + m \<le> length ts"
    and eq: "map args (drop (length ts - (i + m)) ts) = batch_calls a 0 (take (i + m) pageData)"
    by (simp_all add: page_prefix_def)
  have "take (i + m) pageData = take (i + L) pageData"
    using assms(3) by (simp add: length_slice min_def)
  with eq batch_calls_split [OF assms(2), of a L]
  have "map args (drop (length ts - (i + m)) ts)
       = batch_calls a 0 (take i pageData) @ batch_calls a i (slice i (i + L) pageData)" by simp
  then have "drop i (map args (drop (length ts - (i + m)) ts))
       = batch_calls a i (slice i (i + L) pageData)"
    using assms(2) by simp
  moreover have "drop i (map args (drop (length ts - (i + m)) ts)) = map args (drop (length ts - m) ts)"
    using le by (simp add: drop_map)
  ultimately show ?thesis by simp
qed

lemma nths_promises:
  assumes "m \<le> length ts"
  shows "map ((!) ts) [length ts - m ..< length ts] = drop (length ts - m) ts"
  using assms by (intro nth_equalityI) simp_all

lemma all_settled_range:
  "all_settled ts [n ..< length ts] \<Longrightarrow> \<forall>k < n. settled (ts ! k) \<Longrightarrow> \<forall>t \<in> set ts. settled t"
  by (auto simp: all_settled_def list_all_iff in_set_conv_nth) (metis atLeastLessThan_iff not_less)

subsection \<open>The invariant holds in every run\<close>

lemma run_inv_main_loop:
  assumes "start_page P \<le> page_index" "\<forall>t \<in> set (tasks s). settled t"
  shows "run_inv P (main_loop P page_index s)"
  using assms by (simp add: main_loop_def downloadPage_def run_inv_def page_ok_def main_args_def)

text \<open>
  The loop entered at \<open>i\<close>, with the items before \<open>i\<close> started and every task settled:
  it suspends in a state of the invariant, and it either waits for a batch of this
  page at \<open>i\<close> or later, or has started the whole page with every task settled.
\<close>

lemma loop_run_inv:
  assumes "page_ok P a" "batchSize P dvd i"
    and "page_prefix a pageData (min i (length pageData)) (tasks s)"
    and "\<forall>t \<in> set (tasks s). settled t"
  shows "run_inv P (downloadPage_loop P a pageData i s)"
  using assms(2-)
proof (induction "length pageData - i" arbitrary: i s rule: less_induct)
  case less
  show ?case
  proof (cases "i < length pageData")
    case False
    with less.prems assms(1) show ?thesis
      by (simp add: downloadPage_loop_done run_inv_main_loop page_ok_def)
  next
    case True
    show ?thesis
    proof (cases "batchSize P = 0")
      case True
      with \<open>i < length pageData\<close> show ?thesis
        by (simp add: downloadPage_loop_spin run_inv_def)
    next
      case False
      then have L: "0 < batchSize P" by simp
      let ?s1 = "batch_started P a pageData i s"
      let ?new = "batch_tasks P a pageData i s"
      let ?m = "length (slice i (i + batchSize P) pageData)"
      from True less.prems(2) have "page_prefix a pageData i (tasks s)" by (simp add: min_def)
      from page_prefix_extend [OF this _ args_batch_tasks] True
      have pp: "page_prefix a pageData (i + ?m) (tasks ?s1)"
        by (simp add: tasks_batch_started)
      from True L have m: "i + ?m = min (i + batchSize P) (length pageData)"
        by (auto simp add: length_slice min_def)
      show ?thesis
      proof (cases "list_all settled ?new")
        case True
        have "run_inv P (downloadPage_loop P a pageData (i + batchSize P) ?s1)"
        proof (rule less.hyps)
          show "length pageData - (i + batchSize P) < length pageData - i"
            using \<open>i < length pageData\<close> L by simp
          show "batchSize P dvd i + batchSize P" using less.prems(1) by simp
          show "page_prefix a pageData (min (i + batchSize P) (length pageData)) (tasks ?s1)"
            using pp m by simp
          show "\<forall>t \<in> set (tasks ?s1). settled t"
            using less.prems(3) True by (auto simp: tasks_batch_started list_all_iff)
        qed
        with True \<open>i < length pageData\<close> L show ?thesis
          by (simp add: downloadPage_loop_batch)
      next
        case False
        have "\<forall>k < length (tasks s). settled ((tasks s @ ?new) ! k)"
          using less.prems(3) by (simp add: nth_append)
        with False \<open>i < length pageData\<close> L pp less.prems(1) assms(1) show ?thesis
          by (simp add: downloadPage_loop_batch run_inv_def Let_def tasks_batch_started
              length_batch_tasks)
      qed
    qed
  qed
qed

lemma loop_exit:
  assumes "0 < batchSize P"
    and "page_prefix a pageData (min i (length pageData)) (tasks s)"
    and "\<forall>t \<in> set (tasks s). settled t"
  shows "(\<exists>i' ps. control (downloadPage_loop P a pageData i s) = Await_batch a pageData i' ps \<and> i \<le> i')
       \<or> (page_prefix a pageData (length pageData) (tasks (downloadPage_loop P a pageData i s))
          \<and> (\<forall>t \<in> set (tasks (downloadPage_loop P a pageData i s)). settled t))"
  using assms(2-)
proof (induction "length pageData - i" arbitrary: i s rule: less_induct)
  case less
  note L = assms(1)
  show ?case
  proof (cases "i < length pageData")
    case False
    then have "min i (length pageData) = length pageData" by simp
    with less.prems show ?thesis
      by (simp add: downloadPage_loop_done main_loop_def downloadPage_def)
  next
    case True
    let ?s1 = "batch_started P a pageData i s"
    let ?new = "batch_tasks P a pageData i s"
    let ?m = "length (slice i (i + batchSize P) pageData)"
    from True less.prems(1) have "page_prefix a pageData i (tasks s)" by (simp add: min_def)
    from page_prefix_extend [OF this _ args_batch_tasks] True
    have pp: "page_prefix a pageData (i + ?m) (tasks ?s1)"
      by (simp add: tasks_batch_started)
    from True L have m: "i + ?m = min (i + batchSize P) (length pageData)"
      by (auto simp add: length_slice min_def)
    show ?thesis
    proof (cases "list_all settled ?new")
      case True
      have "(\<exists>i' ps. control (downloadPage_loop P a pageData (i + batchSize P) ?s1)
                  = Await_batch a pageData i' ps \<and> i + batchSize P \<le> i')
       \<or> (page_prefix a pageData (length pageData)
              (tasks (downloadPage_loop P a pageData (i + batchSize P) ?s1))
          \<and> (\<forall>t \<in> set (tasks (downloadPage_loop P a pageData (i + batchSize P) ?s1)). settled t))"
      proof (rule less.hyps)
        show "length pageData - (i + batchSize P) < length pageData - i"
          using \<open>i < length pageData\<close> L by simp
        show "page_prefix a pageData (min (i + batchSize P) (length pageData)) (tasks ?s1)"
          using pp m by simp
        show "\<forall>t \<in> set (tasks ?s1). settled t"
          using less.prems(2) True by (auto simp: tasks_batch_started list_all_iff)
      qed
      with True \<open>i < length pageData\<close> L show ?thesis
        by (auto simp add: downloadPage_loop_batch)
    next
      case False
      with \<open>i < length pageData\<close> L show ?thesis
        by (simp add: downloadPage_loop_batch)
    qed
  qed
qed


lemma deliver_cases:
  obtains "deliver k e s = s"
  | t w where "k < length (tasks s)" "task_step e (tasks s ! k) (world s) = (t, w)"
      "deliver k e s = s\<lparr>world := w, tasks := (tasks s)[k := t]\<rparr>"
  by (cases "k < length (tasks s)"; cases "task_step e (tasks s ! k) (world s)")
     (auto simp: deliver_def)

lemma control_deliver [simp]: "control (deliver k e s) = control s"
  by (cases rule: deliver_cases [of k e s]) simp_all

lemma map_args_update:
  assumes "k < length ts" "args t = args (ts ! k)"
  shows "map args (ts[k := t]) = map args ts"
  using assms by (simp add: map_update list_update_same_conv)

lemma run_inv_deliver:
  assumes "run_inv P s" shows "run_inv P (deliver k e s)"
proof (cases rule: deliver_cases [of k e s])
  case 1
  with assms show ?thesis by simp
next
  case (2 t w)
  let ?ts = "(tasks s)[k := t]"
  from 2(1,2) have m: "map args ?ts = map args (tasks s)"
    by (simp add: map_args_update args_task_step)
  have st: "settled (?ts ! j)" if "settled (tasks s ! j)" "j < length (tasks s)" for j
    using that 2(2) settled_task_step by (cases "j = k") auto
  have pp: "page_prefix a pd j ?ts = page_prefix a pd j (tasks s)" for a pd j
    by (rule page_prefix_cong) (simp_all add: m)
  have all: "\<forall>t \<in> set ?ts. settled t" if "\<forall>t \<in> set (tasks s). settled t"
    using that st by (auto simp: in_set_conv_nth) (metis length_list_update nth_mem)
  show ?thesis
  proof (cases "control s")
    case (Await_batch a pd i ps)
    with assms show ?thesis
      by (auto simp: run_inv_def 2(3) Let_def pp intro!: st)
  next
    case (Await_page a body)
    with assms all show ?thesis by (simp add: run_inv_def 2(3))
  next
    case Completed
    with assms all show ?thesis by (simp add: run_inv_def 2(3))
  qed (simp_all add: run_inv_def 2(3))
qed

lemma run_inv_resume:
  assumes "run_inv P s" shows "run_inv P (resume P s)"
proof (cases "control s")
  case (Await_batch a pd i ps)
  show ?thesis
  proof (cases "all_settled (tasks s) ps")
    case False
    with Await_batch assms show ?thesis by (simp add: resume_def)
  next
    case True
    let ?L = "batchSize P"
    let ?m = "length (slice i (i + ?L) pd)"
    let ?n = "length (tasks s)"
    from assms Await_batch have ok: "page_ok P a" and L: "0 < ?L" and d: "?L dvd i"
      and i: "i < length pd" and pp: "page_prefix a pd (i + ?m) (tasks s)"
      and ps: "ps = [?n - ?m ..< ?n]" and old: "\<forall>k < ?n - ?m. settled (tasks s ! k)"
      by (simp_all add: run_inv_def Let_def)
    from i L have m: "i + ?m = min (i + ?L) (length pd)"
      by (auto simp add: length_slice min_def)
    have "run_inv P (downloadPage_loop P a pd (i + ?L) s)"
    proof (rule loop_run_inv [OF ok])
      show "?L dvd i + ?L" using d by simp
      show "page_prefix a pd (min (i + ?L) (length pd)) (tasks s)" using pp m by simp
      show "\<forall>t \<in> set (tasks s). settled t"
        using True old unfolding ps by (rule all_settled_range)
    qed
    with True Await_batch show ?thesis by (simp add: resume_def)
  qed
qed (use assms in \<open>simp_all add: resume_def\<close>)

lemma run_inv_step:
  assumes "run_inv P s" shows "run_inv P (step P s ev)"
proof (cases ev)
  case (Page_data chunk)
  with assms show ?thesis by (cases "control s") (simp_all add: run_inv_def)
next
  case Page_end
  show ?thesis
  proof (cases "control s")
    case (Await_page a body)
    with assms have ok: "page_ok P a" and all: "\<forall>t \<in> set (tasks s). settled t"
      by (simp_all add: run_inv_def)
    have "run_inv P (downloadPage_loop P a pd 0 s)" for pd
      by (rule loop_run_inv [OF ok]) (simp_all add: page_prefix_0 all)
    then have "run_inv P (on_page_end P a body s)"
      by (cases "JSON_parse P body") (simp_all add: on_page_end_def Let_def, simp add: run_inv_def)
    with Await_page Page_end show ?thesis by simp
  qed (use assms Page_end in simp_all)
next
  case (Page_error m)
  with assms show ?thesis by (cases "control s") (simp_all add: run_inv_def)
next
  case (Task_event k e)
  with assms show ?thesis by (simp add: run_inv_resume run_inv_deliver)
qed

lemma run_inv_main: "run_inv P (main P fs)"
  unfolding main_def by (rule run_inv_main_loop) simp_all

lemma run_inv_foldl: "run_inv P s \<Longrightarrow> run_inv P (foldl (step P) s evs)"
  by (induction evs arbitrary: s) (simp_all add: run_inv_step)

lemma run_inv_run: "run_inv P (run P fs evs)"
  unfolding run_def by (rule run_inv_foldl) (rule run_inv_main)

lemma step_from_batch:
  assumes "run_inv P s" "control s = Await_batch a pageData i promises"
  shows "(\<exists>i' ps. control (step P s ev) = Await_batch a pageData i' ps \<and> i \<le> i')
       \<or> (page_prefix a pageData (length pageData) (tasks (step P s ev))
          \<and> (\<forall>t \<in> set (tasks (step P s ev)). settled t))"
proof (cases ev)
  case (Task_event k e)
  let ?s1 = "deliver k e s"
  have i1: "run_inv P ?s1" using assms(1) by (rule run_inv_deliver)
  have c1: "control ?s1 = Await_batch a pageData i promises" using assms(2) by simp
  have al: "alive s" using assms(2) by (simp add: alive_def)
  show ?thesis
  proof (cases "all_settled (tasks ?s1) promises")
    case False
    with c1 al Task_event show ?thesis by (simp add: resume_def)
  next
    case True
    let ?L = "batchSize P"
    let ?m = "length (slice i (i + ?L) pageData)"
    let ?n = "length (tasks ?s1)"
    from i1 c1 have L: "0 < ?L" and i: "i < length pageData"
      and pp: "page_prefix a pageData (i + ?m) (tasks ?s1)"
      and ps: "promises = [?n - ?m ..< ?n]" and old: "\<forall>k < ?n - ?m. settled (tasks ?s1 ! k)"
      by (simp_all add: run_inv_def Let_def)
    from i L have m: "i + ?m = min (i + ?L) (length pageData)"
      by (auto simp add: length_slice min_def)
    have "(\<exists>i' ps. control (downloadPage_loop P a pageData (i + ?L) ?s1)
                = Await_batch a pageData i' ps \<and> i + ?L \<le> i')
       \<or> (page_prefix a pageData (length pageData)
              (tasks (downloadPage_loop P a pageData (i + ?L) ?s1))
          \<and> (\<forall>t \<in> set (tasks (downloadPage_loop P a pageData (i + ?L) ?s1)). settled t))"
    proof (rule loop_exit [OF L])
      show "page_prefix a pageData (min (i + ?L) (length pageData)) (tasks ?s1)"
        using pp m by simp
      show "\<forall>t \<in> set (tasks ?s1). settled t"
        using True old unfolding ps by (rule all_settled_range)
    qed
    moreover have "step P s ev = downloadPage_loop P a pageData (i + ?L) ?s1"
      using True c1 al Task_event by (simp add: resume_def)
    ultimately show ?thesis by auto
  qed
qed (use assms(2) in simp_all)

text \<open>What holds while the run waits for a batch.\<close>

lemma waiting_batch:
  assumes "control (run P fs evs) = Await_batch a pageData i promises"
  shows "page_ok P a" and "0 < batchSize P" and "batchSize P dvd i" and "i < length pageData"
    and "promises = [length (tasks (run P fs evs)) - length (slice i (i + batchSize P) pageData)
                       ..< length (tasks (run P fs evs))]"
    and "length promises = length (slice i (i + batchSize P) pageData)"
    and "map (\<lambda>k. args (tasks (run P fs evs) ! k)) promises
            = batch_calls a i (slice i (i + batchSize P) pageData)"
    and "page_prefix a pageData (i + length promises) (tasks (run P fs evs))"
    and "\<forall>k < length (tasks (run P fs evs)). k \<notin> set promises \<longrightarrow> settled (tasks (run P fs evs) ! k)"
proof -
  let ?s = "run P fs evs"
  let ?L = "batchSize P"
  let ?m = "length (slice i (i + ?L) pageData)"
  let ?n = "length (tasks ?s)"
  have I: "run_inv P ?s" by (rule run_inv_run)
  with assms show ok: "page_ok P a" and L: "0 < ?L" and d: "?L dvd i" and i: "i < length pageData"
    and ps: "promises = [?n - ?m ..< ?n]"
    by (simp_all add: run_inv_def Let_def)
  from I assms have pp: "page_prefix a pageData (i + ?m) (tasks ?s)"
    and old: "\<forall>k < ?n - ?m. settled (tasks ?s ! k)"
    by (simp_all add: run_inv_def Let_def)
  from pp have le: "?m \<le> ?n" by (simp add: page_prefix_def)
  show lp: "length promises = ?m" using le by (simp add: ps)
  have "map (\<lambda>k. args (tasks ?s ! k)) promises = map args (map ((!) (tasks ?s)) promises)"
    by (simp add: comp_def)
  also have "\<dots> = map args (drop (?n - ?m) (tasks ?s))"
    unfolding ps by (simp only: nths_promises [OF le])
  also have "\<dots> = batch_calls a i (slice i (i + ?L) pageData)"
    using pp i by (intro drop_page_prefix) simp_all
  finally show "map (\<lambda>k. args (tasks ?s ! k)) promises = batch_calls a i (slice i (i + ?L) pageData)" .
  show "page_prefix a pageData (i + length promises) (tasks ?s)" using pp lp by simp
  show "\<forall>k < ?n. k \<notin> set promises \<longrightarrow> settled (tasks ?s ! k)"
    using old by (auto simp: ps)
qed

section \<open>Properties of the run\<close>

lemma page_end_starts_page:
  assumes "run_inv P s" "0 < batchSize P" "control s = Await_page a body"
    and "JSON_parse P body = Some response"
  shows "(\<exists>i ps. control (step P s Page_end)
             = Await_batch a (case data response of None \<Rightarrow> [] | Some xs \<Rightarrow> xs) i ps)
       \<or> (page_prefix a (case data response of None \<Rightarrow> [] | Some xs \<Rightarrow> xs)
             (length (case data response of None \<Rightarrow> [] | Some xs \<Rightarrow> xs))
             (tasks (step P s Page_end))
          \<and> (\<forall>t \<in> set (tasks (step P s Page_end)). settled t))"
proof -
  let ?pd = "case data response of None \<Rightarrow> [] | Some xs \<Rightarrow> xs"
  from assms(1,3) have all: "\<forall>t \<in> set (tasks s). settled t" by (simp add: run_inv_def)
  from assms(3,4) have "step P s Page_end = downloadPage_loop P a ?pd 0 s"
    by (simp add: on_page_end_def)
  moreover have "(\<exists>i' ps. control (downloadPage_loop P a ?pd 0 s) = Await_batch a ?pd i' ps \<and> 0 \<le> i')
       \<or> (page_prefix a ?pd (length ?pd) (tasks (downloadPage_loop P a ?pd 0 s))
          \<and> (\<forall>t \<in> set (tasks (downloadPage_loop P a ?pd 0 s)). settled t))"
    by (rule loop_exit [OF assms(2)]) (simp_all add: page_prefix_0 all)
  ultimately show ?thesis by auto
qed

lemma between_batches:
  assumes "run_inv P s" "(\<exists>a body. control s = Await_page a body) \<or> control s = Completed"
  shows "\<forall>t \<in> set (tasks s). settled t"
  using assms by (auto simp: run_inv_def)

text \<open>
  Claim C2. Whenever the run waits for a batch, at loop position \<open>i\<close> of the page
  \<open>pageData\<close> with batch size \<open>L\<close>: \<open>i\<close> is a multiple of \<open>L\<close> below the length of the
  page and the batch is \<open>pageData.slice(i, i + L)\<close>, of \<open>L\<close> items or of the rest of the
  page when that is shorter; the promises awaited are the last tasks started, one for
  each item of the batch, in order; the tasks started for the page are those of its
  first \<open>i + L\<close> items, in order; every task outside the batch has settled. From
  there an event either leaves the run at a batch of this page at \<open>i\<close> or later, or
  the tasks of the whole page have been started, in order, and all have settled.
  The same holds for the event that ends a page response and enters the loop. And
  while the run waits for a page, or has completed, every task has settled.
\<close>

theorem batches_in_order:
  "(control (run P fs evs) = Await_batch a pageData i promises \<longrightarrow>
       0 < batchSize P \<and> batchSize P dvd i \<and> i < length pageData
     \<and> length (slice i (i + batchSize P) pageData) = min (batchSize P) (length pageData - i)
     \<and> promises = [length (tasks (run P fs evs)) - length (slice i (i + batchSize P) pageData)
                     ..< length (tasks (run P fs evs))]
     \<and> map (\<lambda>k. args (tasks (run P fs evs) ! k)) promises
          = batch_calls a i (slice i (i + batchSize P) pageData)
     \<and> page_prefix a pageData (i + length promises) (tasks (run P fs evs))
     \<and> (\<forall>k < length (tasks (run P fs evs)).
           k \<notin> set promises \<longrightarrow> settled (tasks (run P fs evs) ! k))
     \<and> (\<forall>ev. (\<exists>i' ps. control (step P (run P fs evs) ev) = Await_batch a pageData i' ps \<and> i \<le> i')
            \<or> (page_prefix a pageData (length pageData) (tasks (step P (run P fs evs) ev))
                \<and> (\<forall>t \<in> set (tasks (step P (run P fs evs) ev)). settled t))))
   \<and> (0 < batchSize P \<and> control (run P fs evs) = Await_page b body
        \<and> JSON_parse P body = Some response \<longrightarrow>
         (\<exists>i' ps. control (step P (run P fs evs) Page_end)
              = Await_batch b (case data response of None \<Rightarrow> [] | Some xs \<Rightarrow> xs) i' ps)
       \<or> (page_prefix b (case data response of None \<Rightarrow> [] | Some xs \<Rightarrow> xs)
             (length (case data response of None \<Rightarrow> [] | Some xs \<Rightarrow> xs))
             (tasks (step P (run P fs evs) Page_end))
          \<and> (\<forall>t \<in> set (tasks (step P (run P fs evs) Page_end)). settled t)))
   \<and> ((\<exists>a body. control (run P fs evs) = Await_page a body) \<or> control (run P fs evs) = Completed
        \<longrightarrow> (\<forall>t \<in> set (tasks (run P fs evs)). settled t))"
proof -
  have len: "length (slice i (i + batchSize P) pageData) = min (batchSize P) (length pageData - i)"
    by (simp add: length_slice)
  have A: "0 < batchSize P \<and> batchSize P dvd i \<and> i < length pageData
     \<and> length (slice i (i + batchSize P) pageData) = min (batchSize P) (length pageData - i)
     \<and> promises = [length (tasks (run P fs evs)) - length (slice i (i + batchSize P) pageData)
                     ..< length (tasks (run P fs evs))]
     \<and> map (\<lambda>k. args (tasks (run P fs evs) ! k)) promises
          = batch_calls a i (slice i (i + batchSize P) pageData)
     \<and> page_prefix a pageData (i + length promises) (tasks (run P fs evs))
     \<and> (\<forall>k < length (tasks (run P fs evs)).
           k \<notin> set promises \<longrightarrow> settled (tasks (run P fs evs) ! k))
     \<and> (\<forall>ev. (\<exists>i' ps. control (step P (run P fs evs) ev) = Await_batch a pageData i' ps \<and> i \<le> i')
            \<or> (page_prefix a pageData (length pageData) (tasks (step P (run P fs evs) ev))
                \<and> (\<forall>t \<in> set (tasks (step P (run P fs evs) ev)). settled t)))"
    if h: "control (run P fs evs) = Await_batch a pageData i promises"
  proof -
    have nxt: "\<forall>ev. (\<exists>i' ps. control (step P (run P fs evs) ev) = Await_batch a pageData i' ps \<and> i \<le> i')
              \<or> (page_prefix a pageData (length pageData) (tasks (step P (run P fs evs) ev))
                  \<and> (\<forall>t \<in> set (tasks (step P (run P fs evs) ev)). settled t))"
      using step_from_batch [OF run_inv_run h] by blast
    from waiting_batch(2-5,7-9) [OF h] len nxt show ?thesis by blast
  qed
  have B: "(\<exists>i' ps. control (step P (run P fs evs) Page_end)
              = Await_batch b (case data response of None \<Rightarrow> [] | Some xs \<Rightarrow> xs) i' ps)
       \<or> (page_prefix b (case data response of None \<Rightarrow> [] | Some xs \<Rightarrow> xs)
             (length (case data response of None \<Rightarrow> [] | Some xs \<Rightarrow> xs))
             (tasks (step P (run P fs evs) Page_end))
          \<and> (\<forall>t \<in> set (tasks (step P (run P fs evs) Page_end)). settled t))"
    if "0 < batchSize P" "control (run P fs evs) = Await_page b body"
      "JSON_parse P body = Some response"
    using that by (intro page_end_starts_page [OF run_inv_run])
  have C: "\<forall>t \<in> set (tasks (run P fs evs)). settled t"
    if "(\<exists>a body. control (run P fs evs) = Await_page a body) \<or> control (run P fs evs) = Completed"
    using that by (rule between_batches [OF run_inv_run])
  from A B C show ?thesis by blast
qed

text \<open>
  In the concrete run the first batch of eight has settled (six files existed, one
  download finished, one failed) and the run waits for the second batch, the last
  two items. Before, at the end of the page response, the first batch was started.
\<close>

theorem batches_in_order_witness:
  "control (run ex_params ex_files ex_events) = Await_batch (main_args ex_params 3) ex_items 8 [8, 9]
   \<and> batchSize ex_params dvd 8
   \<and> length (slice 8 (8 + batchSize ex_params) ex_items) = 2
   \<and> map (\<lambda>k. args (tasks (run ex_params ex_files ex_events) ! k)) [8, 9]
        = batch_calls (main_args ex_params 3) 8 (slice 8 (8 + batchSize ex_params) ex_items)
   \<and> settled (tasks (run ex_params ex_files ex_events) ! 6)
   \<and> settled (tasks (run ex_params ex_files ex_events) ! 7)
   \<and> 0 < batchSize ex_params
   \<and> control (run ex_params ex_files [Page_data ''ten items''])
       = Await_page (main_args ex_params 3) ''ten items''
   \<and> JSON_parse ex_params ''ten items'' = Some \<lparr>data = Some ex_items\<rparr>
   \<and> control (step ex_params (run ex_params ex_files [Page_data ''ten items'']) Page_end)
       = Await_batch (main_args ex_params 3) ex_items 0 [0, 1, 2, 3, 4, 5, 6, 7]
   \<and> tasks (run ex_params ex_files [Page_data ''ten items'']) = []"
proof -
  have h: "control (run ex_params ex_files ex_events)
      = Await_batch (main_args ex_params 3) ex_items 8 [8, 9]"
    by code_simp
  have l: "length (tasks (run ex_params ex_files ex_events)) = 10" by code_simp
  have m: "min (batchSize ex_params) (length ex_items - 8) = 2" by code_simp
  note b = batches_in_order [of ex_params ex_files ex_events "main_args ex_params 3" ex_items 8
      "[8, 9]" "main_args ex_params 3" "''ten items''" "\<lparr>data = Some ex_items\<rparr>"]
  from b h have d: "batchSize ex_params dvd 8" by blast
  from b h have "length (slice 8 (8 + batchSize ex_params) ex_items)
      = min (batchSize ex_params) (length ex_items - 8)" by blast
  with m have n: "length (slice 8 (8 + batchSize ex_params) ex_items) = 2" by (simp only:)
  from b h have c: "map (\<lambda>k. args (tasks (run ex_params ex_files ex_events) ! k)) [8, 9]
        = batch_calls (main_args ex_params 3) 8 (slice 8 (8 + batchSize ex_params) ex_items)"
    by blast
  from b h have r: "\<forall>k < length (tasks (run ex_params ex_files ex_events)).
       k \<notin> set [8, 9] \<longrightarrow> settled (tasks (run ex_params ex_files ex_events) ! k)"
    by blast
  have "(6::nat) < 10" "(6::nat) \<notin> set [8, 9]" "(7::nat) < 10" "(7::nat) \<notin> set [8, 9]"
    by simp_all
  with r have s: "settled (tasks (run ex_params ex_files ex_events) ! 6)"
    "settled (tasks (run ex_params ex_files ex_events) ! 7)"
    unfolding l by blast+
  let ?s0 = "run ex_params ex_files [Page_data ''ten items'']"
  have g1: "0 < batchSize ex_params" by code_simp
  have g2: "control ?s0 = Await_page (main_args ex_params 3) ''ten items''" by code_simp
  have g3: "JSON_parse ex_params ''ten items'' = Some \<lparr>data = Some ex_items\<rparr>" by code_simp
  have g4: "control (step ex_params ?s0 Page_end)
       = Await_batch (main_args ex_params 3) ex_items 0 [0, 1, 2, 3, 4, 5, 6, 7]" by code_simp
  have g5: "tasks ?s0 = []" by code_simp
  from h d n c s g1 g2 g3 g4 g5 show ?thesis by blast
qed








lemma image_urls_append [simp]: "image_urls (xs @ ys) = image_urls xs @ image_urls ys"
  by (induction xs rule: image_urls.induct) simp_all

text \<open>
  Claim C7. The page response has ended and parses to an envelope whose \<open>data\<close> is
  absent or empty. Then \<open>downloadPage\<close> returns into the loop of \<open>main\<close> at the next
  page: no task is started, no image is requested, no file changes, and the run goes
  on to the next page or completes.
\<close>

theorem empty_page_is_no_error:
  assumes "control s = Await_page a body" and "JSON_parse P body = Some response"
    and "data response = None \<or> data response = Some []"
  shows "step P s Page_end = main_loop P (pageId a + 1) s
       \<and> tasks (step P s Page_end) = tasks s
       \<and> image_urls (requests (world (step P s Page_end))) = image_urls (requests (world s))
       \<and> files (world (step P s Page_end)) = files (world s)
       \<and> (control (step P s Page_end) = Completed
          \<or> control (step P s Page_end) = Await_page (main_args P (pageId a + 1)) [])"
proof -
  from assms have "step P s Page_end = main_loop P (pageId a + 1) s"
    by (auto simp: on_page_end_def downloadPage_loop_done)
  then show ?thesis
    by (simp add: main_loop_def downloadPage_def say_def)
qed

theorem empty_page_is_no_error_witness:
  "control (run ex_params ex_files [Page_data ''no data''])
     = Await_page (main_args ex_params 3) ''no data''
   \<and> JSON_parse ex_params ''no data'' = Some \<lparr>data = None\<rparr>
   \<and> tasks (step ex_params (run ex_params ex_files [Page_data ''no data'']) Page_end) = []
   \<and> control (step ex_params (run ex_params ex_files [Page_data ''no data'']) Page_end)
       = Await_page (main_args ex_params 4) []"
proof -
  let ?s = "run ex_params ex_files [Page_data ''no data'']"
  have h1: "control ?s = Await_page (main_args ex_params 3) ''no data''" by code_simp
  have h2: "JSON_parse ex_params ''no data'' = Some \<lparr>data = None\<rparr>" by code_simp
  have h3: "data \<lparr>data = None\<rparr> = None \<or> data \<lparr>data = None\<rparr> = Some []" by simp
  have t: "tasks ?s = []" by code_simp
  have p: "pageId (main_args ex_params 3) + 1 = 4" by (simp add: main_args_def)
  have c: "control (main_loop ex_params 4 ?s) = Await_page (main_args ex_params 4) []"
    by (simp add: main_loop_def downloadPage_def ex_params_def)
  note e = empty_page_is_no_error [OF h1 h2 h3]
  from e have "step ex_params ?s Page_end = main_loop ex_params (pageId (main_args ex_params 3) + 1) ?s"
    by blast
  with p c have "control (step ex_params ?s Page_end) = Await_page (main_args ex_params 4) []"
    by (simp only:)
  moreover from e have "tasks (step ex_params ?s Page_end) = tasks ?s" by blast
  with t have "tasks (step ex_params ?s Page_end) = []" by (simp only:)
  ultimately show ?thesis using h1 h2 by blast
qed





subsection \<open>Existing files\<close>

lemma image_urls_gets: "image_urls (map (\<lambda>c. Get_image (image_url c)) cs) = map image_url cs"
  by (induction cs) simp_all

lemma requested_started:
  "map (\<lambda>t. image_url (args t)) (filter requested (map (start_task fs) cs))
     = map image_url (filter (\<lambda>c. file_path c \<notin> fs) cs)"
  by (induction cs) (simp_all add: start_task_def requested_def new_task_def)

lemma accounted_batch_started:
  assumes "accounted s" shows "accounted (batch_started P a pageData i s)"
  using assms
  by (simp add: accounted_def batch_started_def batch_tasks_def start_all_requests
      image_urls_gets requested_started)

lemma accounted_main_loop: "accounted s \<Longrightarrow> accounted (main_loop P x s)"
  by (simp add: accounted_def main_loop_def downloadPage_def say_def)

lemma accounted_loop: "accounted s \<Longrightarrow> accounted (downloadPage_loop P a pageData i s)"
  by (rule loop_rule [where I = accounted])
     (simp_all add: accounted_batch_started accounted_main_loop, simp_all add: accounted_def)

lemma kept_batch_started:
  assumes "kept p s" shows "kept p (batch_started P a pageData i s)"
  using assms
  by (auto simp: kept_def batch_started_def batch_tasks_def start_all_files start_task_def
      new_task_def)

lemma kept_main_loop: "kept p s \<Longrightarrow> kept p (main_loop P x s)"
  by (simp add: kept_def main_loop_def downloadPage_def say_def)

lemma kept_loop: "kept p s \<Longrightarrow> kept p (downloadPage_loop P a pageData i s)"
  by (rule loop_rule [where I = "kept p"])
     (simp_all add: kept_batch_started kept_main_loop, simp_all add: kept_def)

lemma requests_task_step:
  "task_step e t w = (t', w') \<Longrightarrow> requests w' = requests w \<and> requested t' = requested t"
  by (cases e) (auto simp: handler_defs requested_def Let_def split: if_splits option.splits)

lemma other_file_task_step:
  "task_step e t w = (t', w') \<Longrightarrow> p \<in> files w \<Longrightarrow> file_path (args t) \<noteq> p \<Longrightarrow> p \<in> files w'"
  by (cases e) (auto simp: handler_defs Let_def split: if_splits option.splits)

lemma filter_map_update:
  assumes "k < length xs" "Q y = Q (xs ! k)" "g y = g (xs ! k)"
  shows "map g (filter Q (xs[k := y])) = map g (filter Q xs)"
proof -
  have "map (\<lambda>x. (Q x, g x)) (xs[k := y]) = map (\<lambda>x. (Q x, g x)) xs"
    using assms by (simp add: map_update list_update_same_conv)
  then have "map snd (filter fst (map (\<lambda>x. (Q x, g x)) (xs[k := y])))
           = map snd (filter fst (map (\<lambda>x. (Q x, g x)) xs))" by simp
  then show ?thesis by (simp add: filter_map comp_def)
qed

lemma accounted_deliver:
  assumes "accounted s" shows "accounted (deliver k e s)"
proof (cases rule: deliver_cases [of k e s])
  case 1
  with assms show ?thesis by simp
next
  case (2 t w)
  from requests_task_step [OF 2(2)] args_task_step [OF 2(2)]
  have "requests w = requests (world s)" "requested t = requested (tasks s ! k)"
    "image_url (args t) = image_url (args (tasks s ! k))" by simp_all
  with assms 2(1) show ?thesis
    by (simp add: accounted_def 2(3) filter_map_update)
qed

lemma kept_deliver:
  assumes "kept p s" shows "kept p (deliver k e s)"
proof (cases rule: deliver_cases [of k e s])
  case 1
  with assms show ?thesis by simp
next
  case (2 t w)
  show ?thesis
  proof (cases "file_path (args (tasks s ! k)) = p")
    case True
    with assms 2(1) have "tasks s ! k = new_task (args (tasks s ! k))"
      by (simp add: kept_def)
    with 2(2) new_task_idle [of e "args (tasks s ! k)" "world s"]
    have "t = tasks s ! k" "w = world s" by simp_all
    with assms show ?thesis by (simp add: 2(3) kept_def list_update_same_conv [THEN iffD2])
  next
    case False
    with assms 2(2) have p: "p \<in> files w"
      using other_file_task_step by (simp add: kept_def)
    from False args_task_step [OF 2(2)] have "file_path (args t) \<noteq> p" by simp
    with assms p show ?thesis
      by (auto simp: 2(3) kept_def dest!: set_update_subset_insert [THEN subsetD])
  qed
qed

lemma kept_step: "kept p s \<Longrightarrow> kept p (step P s ev)"
proof (cases ev)
  case (Task_event k e)
  assume "kept p s"
  then have "kept p (resume P (deliver k e s))"
    by (cases "control (deliver k e s)") (simp_all add: resume_def kept_loop kept_deliver)
  with \<open>kept p s\<close> Task_event show ?thesis by simp
qed (cases "control s";
     simp add: kept_def on_page_end_def kept_loop [unfolded kept_def] split: option.splits)+

lemma accounted_step: "accounted s \<Longrightarrow> accounted (step P s ev)"
proof (cases ev)
  case (Task_event k e)
  assume "accounted s"
  then have "accounted (resume P (deliver k e s))"
    by (cases "control (deliver k e s)") (simp_all add: resume_def accounted_loop accounted_deliver)
  with \<open>accounted s\<close> Task_event show ?thesis by simp
qed (cases "control s";
     simp add: accounted_def on_page_end_def accounted_loop [unfolded accounted_def]
       split: option.splits)+

lemma kept_run: "p \<in> fs \<Longrightarrow> kept p (run P fs evs)"
proof -
  assume "p \<in> fs"
  then have "kept p (main P fs)"
    unfolding main_def by (intro kept_main_loop) (simp add: kept_def)
  then have "kept p (foldl (step P) (main P fs) evs)"
    by (induction evs rule: rev_induct) (simp_all add: kept_step)
  then show ?thesis by (simp add: run_def)
qed

lemma accounted_run: "accounted (run P fs evs)"
proof -
  have "accounted (main P fs)"
    unfolding main_def by (intro accounted_main_loop) (simp add: accounted_def)
  then have "accounted (foldl (step P) (main P fs) evs)"
    by (induction evs rule: rev_induct) (simp_all add: accounted_step)
  then show ?thesis by (simp add: run_def)
qed

text \<open>
  Claim C3. When the destination exists, \<open>saveImageToFile\<close> issues no request and
  changes no file: it prints the "already exists" line and its promise is settled
  with nothing resolved to \<open>false\<close>; no callback is registered, so nothing the runtime
  delivers changes the task. In a second run on the files the first run left, under
  any schedule, every task whose destination is among those files has issued no
  request and is settled. And in every run the image requests issued are those of
  the tasks that issued one, in order.
\<close>

theorem skip_if_exists:
  "(file_path c \<in> files w \<longrightarrow>
      saveImageToFile c w
        = (new_task c,
           say (Already_exists (basename (file_path c)) (current_image c) (total_images c)) w)
    \<and> requests (snd (saveImageToFile c w)) = requests w
    \<and> files (snd (saveImageToFile c w)) = files w
    \<and> settled (fst (saveImageToFile c w))
    \<and> img_response (fst (saveImageToFile c w)) = None
    \<and> (\<forall>es w1. task_run es (fst (saveImageToFile c w)) w1 = (fst (saveImageToFile c w), w1)))
   \<and> (\<forall>t \<in> set (tasks (run P (files (world (run P fs evs))) evs')).
         file_path (args t) \<in> files (world (run P fs evs)) \<longrightarrow> \<not> requested t \<and> settled t)
   \<and> image_urls (requests (world (run P fs evs)))
       = map (\<lambda>t. image_url (args t)) (filter requested (tasks (run P fs evs)))"
proof -
  have one: "saveImageToFile c w
        = (new_task c,
           say (Already_exists (basename (file_path c)) (current_image c) (total_images c)) w)
    \<and> requests (snd (saveImageToFile c w)) = requests w
    \<and> files (snd (saveImageToFile c w)) = files w
    \<and> settled (fst (saveImageToFile c w))
    \<and> img_response (fst (saveImageToFile c w)) = None
    \<and> (\<forall>es w1. task_run es (fst (saveImageToFile c w)) w1 = (fst (saveImageToFile c w), w1))"
    if "file_path c \<in> files w"
    using that
    by (simp add: saveImageToFile_def say_def settled_def new_task_idle_run)
       (simp add: new_task_def)
  have two: "\<not> requested t \<and> settled t"
    if t: "t \<in> set (tasks (run P (files (world (run P fs evs))) evs'))"
      and p: "file_path (args t) \<in> files (world (run P fs evs))" for t
  proof -
    from kept_run [OF p, of P evs'] t have "t = new_task (args t)"
      by (simp add: kept_def)
    then have "request t = No_request" by (metis new_task_def task.select_convs(2))
    then show ?thesis by (simp add: requested_def settled_def)
  qed
  have three: "image_urls (requests (world (run P fs evs)))
       = map (\<lambda>t. image_url (args t)) (filter requested (tasks (run P fs evs)))"
    using accounted_run [of P fs evs] by (simp add: accounted_def)
  from one two three show ?thesis by blast
qed

text \<open>
  The concrete run leaves the file of item 6 behind. In a second run on those files
  the download at position 6 is skipped, and the one image request of the first batch
  is for item 7, whose download had failed.
\<close>

theorem skip_if_exists_witness:
  "file_path ex_call \<in> files ex_world_after
   \<and> requests (snd (saveImageToFile ex_call ex_world_after)) = requests ex_world_after
   \<and> files (snd (saveImageToFile ex_call ex_world_after)) = files ex_world_after
   \<and> tasks (run ex_params (files (world (run ex_params ex_files ex_events))) ex_page) ! 6
       \<in> set (tasks (run ex_params (files (world (run ex_params ex_files ex_events))) ex_page))
   \<and> file_path (args (tasks (run ex_params (files (world (run ex_params ex_files ex_events)))
         ex_page) ! 6)) \<in> files (world (run ex_params ex_files ex_events))
   \<and> \<not> requested (tasks (run ex_params (files (world (run ex_params ex_files ex_events)))
         ex_page) ! 6)
   \<and> image_urls (requests (world (run ex_params
         (files (world (run ex_params ex_files ex_events))) ex_page)))
       = map (\<lambda>t. image_url (args t)) (filter requested (tasks (run ex_params
           (files (world (run ex_params ex_files ex_events))) ex_page)))"
proof -
  let ?fs = "files (world (run ex_params ex_files ex_events))"
  let ?s2 = "run ex_params ?fs ex_page"
  have h1: "file_path ex_call \<in> files ex_world_after"
    by (simp add: ex_call_def ex_world_after_def)
  have l: "6 < length (tasks ?s2)" by code_simp
  then have h2: "tasks ?s2 ! 6 \<in> set (tasks ?s2)" by (rule nth_mem)
  have h3: "file_path (args (tasks ?s2 ! 6)) \<in> ?fs" by code_simp
  note s = skip_if_exists [of ex_call ex_world_after ex_params ex_files ex_events ex_page]
  note s' = skip_if_exists [of ex_call ex_world_after ex_params ?fs ex_page ex_page]
  from s h1 have a: "requests (snd (saveImageToFile ex_call ex_world_after)) = requests ex_world_after"
    "files (snd (saveImageToFile ex_call ex_world_after)) = files ex_world_after"
    by blast+
  from s h2 h3 have b: "\<not> requested (tasks ?s2 ! 6)" by blast
  from s' have c: "image_urls (requests (world ?s2))
       = map (\<lambda>t. image_url (args t)) (filter requested (tasks ?s2))" by blast
  from h1 a h2 h3 b c show ?thesis by blast
qed

end
